theory Spec2Isabelle
  imports Main "HOL-Library.Sublist"
begin

section \<open>JavaScript string search\<close>

text \<open>
  A JavaScript string is a finite sequence of code units; it is modelled as a
  \<^typ>\<open>string\<close>. The search below never looks inside a code unit, it only compares
  them for equality, so the width of a code unit plays no role.

  \<open>StringIndexOf rest p k\<close> is the abstract operation of the same name in ECMAScript,
  where \<open>rest\<close> is what is left of the searched string from index \<open>k\<close> on: the smallest
  index not below \<open>k\<close> at which \<open>p\<close> starts, and \<open>-1\<close> when there is none.
\<close>

fun StringIndexOf :: "string \<Rightarrow> string \<Rightarrow> nat \<Rightarrow> int" where
  "StringIndexOf [] p k = (if p = [] then int k else - 1)"
| "StringIndexOf (x # xs) p k =
     (if prefix p (x # xs) then int k else StringIndexOf xs p (Suc k))"

text \<open>
  \<open>s.indexOf(p, position)\<close>: the position is clamped to \<open>0 .. s.length\<close> first.
  The one-argument call \<open>s.indexOf(p)\<close> is \<open>indexOf s p 0\<close>.
\<close>

definition indexOf :: "string \<Rightarrow> string \<Rightarrow> int \<Rightarrow> int" where
  "indexOf s p position =
     (let start = min (nat (max 0 position)) (length s)
      in StringIndexOf (drop start s) p start)"

text \<open>\<open>occurs_at s p k\<close>: the string \<open>p\<close> stands in \<open>s\<close> at index \<open>k\<close>.\<close>

definition occurs_at :: "string \<Rightarrow> string \<Rightarrow> nat \<Rightarrow> bool" where
  "occurs_at s p k \<longleftrightarrow> k \<le> length s \<and> prefix p (drop k s)"

section \<open>The page and the page object\<close>

text \<open>
  The browser page is outside the repository. \<open>DashboardPage\<close> reads it through two
  calls only, and the page is modelled by what these two calls return:
  \<^item> \<open>page.textContent('body')\<close>, the text of the whole page (a document always has
    a body, so the call yields a string);
  \<^item> \<open>page.getByText(tag, { exact: true }).count()\<close>, the number of elements the
    exact-text locator of \<open>tag\<close> matches.

  With \<open>exact: true\<close> the locator matches an element whose whole text is the given
  string, case-sensitively; it does not search for the string inside a longer text. The
  two results are separate observations of the page: the same page text can come from
  different elements. Both calls are awaited by the source; the model covers the calls
  that resolve, and a call that rejects is not represented.
\<close>

record Page =
  textContent_body :: string
  getByText_exact_count :: "string \<Rightarrow> nat"

record DashboardPage =
  page :: Page
  COLUMNS :: "string list"

text \<open>The constructor: \<open>this.COLUMNS = ['To Do', 'In Progress', 'Review', 'Done']\<close>.\<close>

definition new_DashboardPage :: "Page \<Rightarrow> DashboardPage" where
  "new_DashboardPage pg =
     \<lparr>page = pg, COLUMNS = [''To Do'', ''In Progress'', ''Review'', ''Done'']\<rparr>"

text \<open>A thrown \<open>Error\<close>, with its message.\<close>

datatype error = Error string

section \<open>getTaskColumn\<close>

text \<open>The template literal \<open>`${columnName} (`\<close>.\<close>

definition columnPattern :: "string \<Rightarrow> string" where
  "columnPattern columnName = columnName @ '' (''"

text \<open>
  The inner loop \<open>for (const nextCol of this.COLUMNS)\<close>; the last argument is the
  variable \<open>nextColumnIndex\<close>, which the loop returns.
\<close>

fun nextColumn_loop :: "string list \<Rightarrow> string \<Rightarrow> string \<Rightarrow> int \<Rightarrow> int \<Rightarrow> int" where
  "nextColumn_loop [] pageText columnName columnIndex nextColumnIndex = nextColumnIndex"
| "nextColumn_loop (nextCol # rest) pageText columnName columnIndex nextColumnIndex =
     (if nextCol = columnName
      then nextColumn_loop rest pageText columnName columnIndex nextColumnIndex
      else
        let nextPattern = columnPattern nextCol;
            nextIdx = indexOf pageText nextPattern (columnIndex + 1)
        in if nextIdx > columnIndex \<and> nextIdx < nextColumnIndex
           then nextColumn_loop rest pageText columnName columnIndex nextIdx
           else nextColumn_loop rest pageText columnName columnIndex nextColumnIndex)"

text \<open>\<open>let nextColumnIndex = pageText.length\<close>, then the inner loop.\<close>

definition nextColumnIndex_of :: "string list \<Rightarrow> string \<Rightarrow> string \<Rightarrow> int \<Rightarrow> int" where
  "nextColumnIndex_of cols pageText columnName columnIndex =
     nextColumn_loop cols pageText columnName columnIndex (int (length pageText))"

text \<open>
  The outer loop \<open>for (const columnName of this.COLUMNS)\<close>, over the columns still to
  visit; \<open>cols\<close> is the whole of \<open>this.COLUMNS\<close>, which the inner loop walks again.
  Leaving the loop without a \<open>return\<close> reaches the \<open>throw\<close>.
\<close>

fun column_loop :: "string list \<Rightarrow> string list \<Rightarrow> string \<Rightarrow> string \<Rightarrow> error + string" where
  "column_loop cols [] pageText taskName =
     Inl (Error (''Could not determine column for task: '' @ taskName))"
| "column_loop cols (columnName # rest) pageText taskName =
     (let columnIndex = indexOf pageText (columnPattern columnName) 0
      in if columnIndex = - 1 then column_loop cols rest pageText taskName
         else
           let nextColumnIndex = nextColumnIndex_of cols pageText columnName columnIndex;
               taskIndex = indexOf pageText taskName columnIndex
           in if taskIndex > columnIndex \<and> taskIndex < nextColumnIndex
              then Inr columnName
              else column_loop cols rest pageText taskName)"

definition getTaskColumn :: "DashboardPage \<Rightarrow> string \<Rightarrow> error + string" where
  "getTaskColumn this taskName =
     (let pageText = textContent_body (page this)
      in column_loop (COLUMNS this) (COLUMNS this) pageText taskName)"

section \<open>getTaskTags\<close>

definition possibleTags :: "string list" where
  "possibleTags = [''Feature'', ''Bug'', ''Design'', ''High Priority'']"

text \<open>
  The loop pushes a tag when its locator counts at least one element; \<open>foundTags\<close>
  starts empty, so the loop is a filter of \<open>possibleTags\<close>. The parameter
  \<open>taskName\<close> is declared by the source and never read.
\<close>

definition getTaskTags :: "DashboardPage \<Rightarrow> string \<Rightarrow> string list" where
  "getTaskTags this taskName =
     filter (\<lambda>tag. getByText_exact_count (page this) tag > 0) possibleTags"

section \<open>Notions of the specification\<close>

text \<open>
  \<open>first_index s p start\<close>: the index of the first occurrence of \<open>p\<close> in \<open>s\<close> at or
  after index \<open>start\<close>, if there is one.
\<close>

definition first_index :: "string \<Rightarrow> string \<Rightarrow> nat \<Rightarrow> nat option" where
  "first_index s p start = find (occurs_at s p) [start..<Suc (length s)]"

text \<open>The number of indices at which \<open>p\<close> stands in \<open>s\<close>.\<close>

definition count_occurrences :: "string \<Rightarrow> string \<Rightarrow> nat" where
  "count_occurrences s p = length (filter (occurs_at s p) [0..<Suc (length s)])"

text \<open>The header marker of a column other than \<open>columnName\<close> stands at index \<open>k\<close>.\<close>

definition other_marker_at :: "string list \<Rightarrow> string \<Rightarrow> string \<Rightarrow> nat \<Rightarrow> bool" where
  "other_marker_at cols pageText columnName k \<longleftrightarrow>
     list_ex (\<lambda>c. c \<noteq> columnName \<and> occurs_at pageText (columnPattern c) k) cols"

text \<open>
  The span of a column, as \<open>getTaskColumn\<close> computes it: nothing when the marker is
  absent, otherwise the index of the marker and the final \<open>nextColumnIndex\<close>.
\<close>

definition columnSpan :: "string list \<Rightarrow> string \<Rightarrow> string \<Rightarrow> (int \<times> int) option" where
  "columnSpan cols pageText columnName =
     (let columnIndex = indexOf pageText (columnPattern columnName) 0
      in if columnIndex = - 1 then None
         else Some (columnIndex, nextColumnIndex_of cols pageText columnName columnIndex))"

text \<open>Index \<open>k\<close> lies in the half-open span of the column.\<close>

definition in_span :: "string list \<Rightarrow> string \<Rightarrow> string \<Rightarrow> nat \<Rightarrow> bool" where
  "in_span cols pageText columnName k \<longleftrightarrow>
     (case columnSpan cols pageText columnName of
        None \<Rightarrow> False
      | Some (start, stop) \<Rightarrow> start \<le> int k \<and> int k < stop)"

text \<open>
  The first occurrence of the task name at or after the marker of the column lies
  strictly after the marker and before the end of the span.
\<close>

definition task_in_section :: "string list \<Rightarrow> string \<Rightarrow> string \<Rightarrow> string \<Rightarrow> bool" where
  "task_in_section cols pageText taskName columnName \<longleftrightarrow>
     (case columnSpan cols pageText columnName of
        None \<Rightarrow> False
      | Some (start, stop) \<Rightarrow>
          (case first_index pageText taskName (nat start) of
             None \<Rightarrow> False
           | Some k \<Rightarrow> start < int k \<and> int k < stop))"

section \<open>Example pages\<close>

text \<open>The board text of the scenario in the specification.\<close>

definition boardText :: string where
  "boardText =
     ''To Do (2) Implement auth Fix bug In Progress (1) Design updates Done (0)''"

text \<open>
  Element texts follow each other without a separator in \<open>textContent\<close>, so a task
  title can end where the next header starts.
\<close>

definition adjacentText :: string where
  "adjacentText = ''To Do (1)Write docsIn Progress (1)Fix bugDone (0)''"

text \<open>A board whose \<open>Done\<close> header comes before its \<open>To Do\<close> header.\<close>

definition reorderedText :: string where
  "reorderedText = ''Done (1) Ship it To Do (0)''"

text \<open>
  Locator results. \<open>no_matches\<close>: no element has one of the tags as its whole text.
  \<open>only_bug\<close>: one element has the text \<open>Bug\<close>, none has another tag as its text.
  \<open>feature_and_bug\<close>: one element each for \<open>Feature\<close> and \<open>Bug\<close>.
\<close>

definition no_matches :: "string \<Rightarrow> nat" where
  "no_matches tag = 0"

definition only_bug :: "string \<Rightarrow> nat" where
  "only_bug tag = (if tag = ''Bug'' then 1 else 0)"

definition feature_and_bug :: "string \<Rightarrow> nat" where
  "feature_and_bug tag = (if tag = ''Feature'' \<or> tag = ''Bug'' then 1 else 0)"

text \<open>Pages built from these texts and locator results.\<close>

definition scenarioPage :: Page where
  "scenarioPage = \<lparr>textContent_body = boardText, getByText_exact_count = no_matches\<rparr>"

definition adjacentPage :: Page where
  "adjacentPage = \<lparr>textContent_body = adjacentText, getByText_exact_count = no_matches\<rparr>"

definition reorderedPage :: Page where
  "reorderedPage = \<lparr>textContent_body = reorderedText, getByText_exact_count = no_matches\<rparr>"

text \<open>A task in \<open>To Do\<close> whose title starts like a column header.\<close>

definition almostDonePage :: Page where
  "almostDonePage =
     \<lparr>textContent_body = ''To Do (1) Done (almost)'', getByText_exact_count = no_matches\<rparr>"

definition shipPage :: Page where
  "shipPage = \<lparr>textContent_body = ''Done (1) Ship it'', getByText_exact_count = no_matches\<rparr>"

text \<open>
  \<open>bugfixPage\<close>: a header and one element with the text \<open>Bugfix release\<close>; the exact-text
  locator of \<open>Bug\<close> matches whole texts only, so it matches nothing.
\<close>

definition bugfixPage :: Page where
  "bugfixPage =
     \<lparr>textContent_body = ''To Do (1) Bugfix release'', getByText_exact_count = no_matches\<rparr>"

text \<open>
  \<open>bugPage\<close>: one element with the text \<open>Bug\<close>. \<open>bugBugPage\<close>: the text of that element
  has become \<open>Bug Bug\<close>. \<open>featureBugPage\<close>: an element \<open>Bug\<close> and an element \<open>Feature\<close>.
\<close>

definition bugPage :: Page where
  "bugPage = \<lparr>textContent_body = ''Bug'', getByText_exact_count = only_bug\<rparr>"

definition bugBugPage :: Page where
  "bugBugPage = \<lparr>textContent_body = ''Bug Bug'', getByText_exact_count = no_matches\<rparr>"

definition featureBugPage :: Page where
  "featureBugPage = \<lparr>textContent_body = ''BugFeature'', getByText_exact_count = feature_and_bug\<rparr>"

section \<open>Lemmas\<close>

lemma StringIndexOf_cases:
  "(StringIndexOf rest p k = - 1 \<and> (\<forall>j\<le>length rest. \<not> prefix p (drop j rest)))
   \<or> (\<exists>j\<le>length rest. StringIndexOf rest p k = int (k + j) \<and> prefix p (drop j rest)
          \<and> (\<forall>i<j. \<not> prefix p (drop i rest)))"
proof (induction rest arbitrary: k)
  case Nil
  show ?case by auto
next
  case (Cons x xs)
  show ?case
  proof (cases "prefix p (x # xs)")
    case True
    then have "StringIndexOf (x # xs) p k = int (k + 0) \<and> prefix p (drop 0 (x # xs))
        \<and> (\<forall>i<0::nat. \<not> prefix p (drop i (x # xs)))" by simp
    then show ?thesis by blast
  next
    case False
    from Cons.IH [of "Suc k"] show ?thesis
    proof
      assume h: "StringIndexOf xs p (Suc k) = - 1 \<and> (\<forall>j\<le>length xs. \<not> prefix p (drop j xs))"
      have "\<forall>j\<le>length (x # xs). \<not> prefix p (drop j (x # xs))"
      proof (intro allI impI)
        fix j assume "j \<le> length (x # xs)"
        then show "\<not> prefix p (drop j (x # xs))"
          using h False by (cases j) auto
      qed
      with h False show ?thesis by simp
    next
      assume "\<exists>j\<le>length xs. StringIndexOf xs p (Suc k) = int (Suc k + j) \<and> prefix p (drop j xs)
          \<and> (\<forall>i<j. \<not> prefix p (drop i xs))"
      then obtain j where j: "j \<le> length xs" "StringIndexOf xs p (Suc k) = int (Suc k + j)"
        "prefix p (drop j xs)" "\<forall>i<j. \<not> prefix p (drop i xs)" by blast
      have "\<forall>i<Suc j. \<not> prefix p (drop i (x # xs))"
      proof (intro allI impI)
        fix i assume "i < Suc j"
        then show "\<not> prefix p (drop i (x # xs))"
          using j(4) False by (cases i) auto
      qed
      with j False have "Suc j \<le> length (x # xs) \<and> StringIndexOf (x # xs) p k = int (k + Suc j)
         \<and> prefix p (drop (Suc j) (x # xs)) \<and> (\<forall>i<Suc j. \<not> prefix p (drop i (x # xs)))"
        by simp
      then show ?thesis by blast
    qed
  qed
qed

lemma first_index_Some_iff:
  "first_index s p start = Some k \<longleftrightarrow>
     start \<le> k \<and> occurs_at s p k \<and> (\<forall>j. start \<le> j \<and> j < k \<longrightarrow> \<not> occurs_at s p j)"
proof
  assume "first_index s p start = Some k"
  then obtain i where i: "i < length [start..<Suc (length s)]"
      "occurs_at s p ([start..<Suc (length s)] ! i)" "k = [start..<Suc (length s)] ! i"
      "\<forall>j<i. \<not> occurs_at s p ([start..<Suc (length s)] ! j)"
    unfolding first_index_def find_Some_iff by blast
  from i(1) have il: "i < Suc (length s) - start" by (simp del: upt_Suc)
  from i(1) have k: "k = start + i" using i(3) by (simp del: upt_Suc)
  have "\<not> occurs_at s p j" if "start \<le> j \<and> j < k" for j
  proof -
    from that k have "j - start < i" by arith
    with i(4) have "\<not> occurs_at s p ([start..<Suc (length s)] ! (j - start))" by blast
    moreover have "start + (j - start) < Suc (length s)"
      using that k il by arith
    then have "[start..<Suc (length s)] ! (j - start) = start + (j - start)"
      by (rule nth_upt)
    then have "[start..<Suc (length s)] ! (j - start) = j"
      using that by simp
    ultimately show ?thesis by simp
  qed
  with i(2,3) k show "start \<le> k \<and> occurs_at s p k \<and> (\<forall>j. start \<le> j \<and> j < k \<longrightarrow> \<not> occurs_at s p j)"
    by simp
next
  assume h: "start \<le> k \<and> occurs_at s p k \<and> (\<forall>j. start \<le> j \<and> j < k \<longrightarrow> \<not> occurs_at s p j)"
  then have kl: "k \<le> length s" by (simp add: occurs_at_def)
  let ?xs = "[start..<Suc (length s)]"
  have "k - start < Suc (length s) - start" using h kl by arith
  then have 1: "k - start < length ?xs" by (simp del: upt_Suc)
  have "start + (k - start) < Suc (length s)" using h kl by arith
  then have "?xs ! (k - start) = start + (k - start)" by (rule nth_upt)
  then have 2: "?xs ! (k - start) = k" using h by simp
  have 3: "\<forall>j<k - start. \<not> occurs_at s p (?xs ! j)"
  proof (intro allI impI)
    fix j assume j: "j < k - start"
    then have "start + j < Suc (length s)" using kl by arith
    then have "?xs ! j = start + j" by (rule nth_upt)
    moreover have "start \<le> start + j \<and> start + j < k" using j by arith
    then have "\<not> occurs_at s p (start + j)" using h by blast
    ultimately show "\<not> occurs_at s p (?xs ! j)" by simp
  qed
  from 1 2 3 h have "\<exists>i<length ?xs. occurs_at s p (?xs ! i) \<and> k = ?xs ! i
      \<and> (\<forall>j<i. \<not> occurs_at s p (?xs ! j))"
    by (intro exI [of _ "k - start"]) simp
  then show "first_index s p start = Some k"
    unfolding first_index_def find_Some_iff .
qed

lemma first_index_None_iff:
  "first_index s p start = None \<longleftrightarrow> (\<forall>k\<ge>start. \<not> occurs_at s p k)"
  unfolding first_index_def find_None_iff
  by (auto simp del: upt_Suc simp: occurs_at_def)

lemma indexOf_first_index:
  "indexOf s p position =
     (case first_index s p (min (nat (max 0 position)) (length s)) of
        None \<Rightarrow> - 1 | Some k \<Rightarrow> int k)"
proof -
  define start where "start = min (nat (max 0 position)) (length s)"
  have le: "start \<le> length s" by (simp add: start_def)
  have eq: "indexOf s p position = StringIndexOf (drop start s) p start"
    by (simp add: indexOf_def Let_def start_def)
  from StringIndexOf_cases [of "drop start s" p start]
  have "indexOf s p position = (case first_index s p start of None \<Rightarrow> - 1 | Some k \<Rightarrow> int k)"
  proof
    assume h: "StringIndexOf (drop start s) p start = - 1
        \<and> (\<forall>j\<le>length (drop start s). \<not> prefix p (drop j (drop start s)))"
    have "\<forall>k\<ge>start. \<not> occurs_at s p k"
    proof (intro allI impI)
      fix k assume k: "start \<le> k"
      show "\<not> occurs_at s p k"
      proof
        assume o: "occurs_at s p k"
        then have "k - start \<le> length (drop start s)"
          unfolding occurs_at_def by (simp add: diff_le_mono)
        with h have "\<not> prefix p (drop (k - start) (drop start s))" by blast
        with k o show False by (simp add: occurs_at_def)
      qed
    qed
    then have "first_index s p start = None" by (simp add: first_index_None_iff)
    with h eq show ?thesis by simp
  next
    assume "\<exists>j\<le>length (drop start s). StringIndexOf (drop start s) p start = int (start + j)
        \<and> prefix p (drop j (drop start s)) \<and> (\<forall>i<j. \<not> prefix p (drop i (drop start s)))"
    then obtain j where j: "j \<le> length (drop start s)"
       "StringIndexOf (drop start s) p start = int (start + j)"
       "prefix p (drop j (drop start s))" "\<forall>i<j. \<not> prefix p (drop i (drop start s))" by blast
    have o: "occurs_at s p (start + j)"
      using j(1,3) le by (simp add: occurs_at_def add.commute)
    have "\<forall>i. start \<le> i \<and> i < start + j \<longrightarrow> \<not> occurs_at s p i"
    proof (intro allI impI)
      fix i assume i: "start \<le> i \<and> i < start + j"
      then have "i - start < j" by arith
      with j(4) have "\<not> prefix p (drop (i - start) (drop start s))" by blast
      with i show "\<not> occurs_at s p i" by (simp add: occurs_at_def)
    qed
    with o have "first_index s p start = Some (start + j)" by (simp add: first_index_Some_iff)
    with j(2) eq show ?thesis by simp
  qed
  then show ?thesis by (simp add: start_def)
qed

lemma occurs_at_sublist: "sublist p s \<longleftrightarrow> (\<exists>k. occurs_at s p k)"
proof
  assume "sublist p s"
  then obtain ps ss where "s = ps @ p @ ss" by (auto simp: sublist_def)
  then have "occurs_at s p (length ps)" by (simp add: occurs_at_def)
  then show "\<exists>k. occurs_at s p k" ..
next
  assume "\<exists>k. occurs_at s p k"
  then obtain k where k: "k \<le> length s" "prefix p (drop k s)" by (auto simp: occurs_at_def)
  then obtain ss where "drop k s = p @ ss" by (auto simp: prefix_def)
  then have "s = take k s @ p @ ss" by (metis append_take_drop_id)
  then show "sublist p s" unfolding sublist_def by blast
qed

lemma occurs_at_nonempty_less: "occurs_at s p k \<Longrightarrow> p \<noteq> [] \<Longrightarrow> k < length s"
  unfolding occurs_at_def by (cases "k = length s") auto

lemma columnPattern_nonempty: "columnPattern c \<noteq> []"
  by (simp add: columnPattern_def)

text \<open>The search from \<open>columnIndex + 1\<close> in the inner loop.\<close>

lemma indexOf_after_found:
  assumes "indexOf s p (int start + 1) > int start"
  shows "\<exists>k. indexOf s p (int start + 1) = int k \<and> start < k \<and> occurs_at s p k"
proof (cases "first_index s p (min (nat (max 0 (int start + 1))) (length s))")
  case None
  with assms show ?thesis by (simp add: indexOf_first_index)
next
  case (Some k)
  then have "indexOf s p (int start + 1) = int k" by (simp add: indexOf_first_index)
  moreover from this assms have "start < k" by simp
  moreover from Some have "occurs_at s p k" by (simp add: first_index_Some_iff)
  ultimately show ?thesis by blast
qed

lemma indexOf_after_bound:
  assumes "occurs_at s p k" "start < k" "p \<noteq> []"
  shows "int start < indexOf s p (int start + 1) \<and> indexOf s p (int start + 1) \<le> int k"
proof -
  from assms have kl: "k < length s" by (simp add: occurs_at_nonempty_less)
  with assms(2) have st: "min (nat (max 0 (int start + 1))) (length s) = Suc start" by simp
  show ?thesis
  proof (cases "first_index s p (Suc start)")
    case None
    with assms(1,2) show ?thesis by (simp add: first_index_None_iff)
  next
    case (Some k0)
    then have "Suc start \<le> k0" and "\<not> k < k0"
      using assms(1,2) by (auto simp: first_index_Some_iff)
    moreover have "indexOf s p (int start + 1) = int k0"
      using Some st by (simp add: indexOf_first_index)
    ultimately show ?thesis by simp
  qed
qed

text \<open>The inner loop: what \<open>nextColumnIndex\<close> holds when the loop is left.\<close>

lemma other_marker_at_Cons:
  "other_marker_at (x # rest) pageText c k \<longleftrightarrow>
     (x \<noteq> c \<and> occurs_at pageText (columnPattern x) k) \<or> other_marker_at rest pageText c k"
  by (simp add: other_marker_at_def)

lemma nextColumn_loop_le:
  "nextColumn_loop rest pageText c ci acc \<le> acc"
proof (induction rest arbitrary: acc)
  case Nil
  show ?case by simp
next
  case (Cons x rest)
  let ?n = "indexOf pageText (columnPattern x) (ci + 1)"
  show ?case
  proof (cases "x \<noteq> c \<and> ?n > ci \<and> ?n < acc")
    case True
    then have "nextColumn_loop (x # rest) pageText c ci acc = nextColumn_loop rest pageText c ci ?n"
      by (simp add: Let_def)
    with Cons.IH [of ?n] True show ?thesis by simp
  next
    case False
    then have "nextColumn_loop (x # rest) pageText c ci acc = nextColumn_loop rest pageText c ci acc"
      by (auto simp: Let_def)
    with Cons.IH [of acc] show ?thesis by simp
  qed
qed

lemma nextColumn_loop_cases:
  "nextColumn_loop rest pageText c (int s) acc = acc
   \<or> (\<exists>k. nextColumn_loop rest pageText c (int s) acc = int k \<and> s < k
          \<and> other_marker_at rest pageText c k)"
proof (induction rest arbitrary: acc)
  case Nil
  show ?case by simp
next
  case (Cons x rest)
  let ?n = "indexOf pageText (columnPattern x) (int s + 1)"
  show ?case
  proof (cases "x \<noteq> c \<and> ?n > int s \<and> ?n < acc")
    case True
    then have eq: "nextColumn_loop (x # rest) pageText c (int s) acc
        = nextColumn_loop rest pageText c (int s) ?n"
      by (simp add: Let_def)
    from True obtain k0 where k0: "?n = int k0" "s < k0" "occurs_at pageText (columnPattern x) k0"
      using indexOf_after_found [of s pageText "columnPattern x"] by blast
    from Cons.IH [of ?n] show ?thesis
    proof
      assume "nextColumn_loop rest pageText c (int s) ?n = ?n"
      with eq k0 True have "nextColumn_loop (x # rest) pageText c (int s) acc = int k0 \<and> s < k0
          \<and> other_marker_at (x # rest) pageText c k0"
        by (simp add: other_marker_at_Cons)
      then show ?thesis by blast
    next
      assume "\<exists>k. nextColumn_loop rest pageText c (int s) ?n = int k \<and> s < k
          \<and> other_marker_at rest pageText c k"
      with eq show ?thesis by (auto simp: other_marker_at_Cons)
    qed
  next
    case False
    then have eq: "nextColumn_loop (x # rest) pageText c (int s) acc
        = nextColumn_loop rest pageText c (int s) acc"
      by (auto simp: Let_def)
    from Cons.IH [of acc] show ?thesis
      using eq by (auto simp: other_marker_at_Cons)
  qed
qed

lemma nextColumn_loop_lower:
  assumes "other_marker_at rest pageText c k" "s < k"
  shows "nextColumn_loop rest pageText c (int s) acc \<le> int k"
  using assms(1)
proof (induction rest arbitrary: acc)
  case Nil
  then show ?case by (simp add: other_marker_at_def)
next
  case (Cons x rest)
  let ?n = "indexOf pageText (columnPattern x) (int s + 1)"
  show ?case
  proof (cases "x \<noteq> c \<and> ?n > int s \<and> ?n < acc")
    case True
    then have eq: "nextColumn_loop (x # rest) pageText c (int s) acc
        = nextColumn_loop rest pageText c (int s) ?n"
      by (simp add: Let_def)
    from Cons.prems have "(x \<noteq> c \<and> occurs_at pageText (columnPattern x) k)
        \<or> other_marker_at rest pageText c k"
      by (simp add: other_marker_at_Cons)
    then show ?thesis
    proof
      assume "x \<noteq> c \<and> occurs_at pageText (columnPattern x) k"
      then have "?n \<le> int k"
        using indexOf_after_bound [of pageText "columnPattern x" k s] assms(2)
        by (simp add: columnPattern_nonempty)
      moreover have "nextColumn_loop rest pageText c (int s) ?n \<le> ?n"
        by (rule nextColumn_loop_le)
      ultimately show ?thesis using eq by simp
    next
      assume "other_marker_at rest pageText c k"
      then show ?thesis using Cons.IH [of ?n] eq by simp
    qed
  next
    case False
    then have eq: "nextColumn_loop (x # rest) pageText c (int s) acc
        = nextColumn_loop rest pageText c (int s) acc"
      by (auto simp: Let_def)
    from Cons.prems have "(x \<noteq> c \<and> occurs_at pageText (columnPattern x) k)
        \<or> other_marker_at rest pageText c k"
      by (simp add: other_marker_at_Cons)
    then show ?thesis
    proof
      assume h: "x \<noteq> c \<and> occurs_at pageText (columnPattern x) k"
      then have n: "int s < ?n \<and> ?n \<le> int k"
        using indexOf_after_bound [of pageText "columnPattern x" k s] assms(2)
        by (simp add: columnPattern_nonempty)
      with False h have "acc \<le> ?n" by simp
      moreover have "nextColumn_loop rest pageText c (int s) acc \<le> acc"
        by (rule nextColumn_loop_le)
      ultimately show ?thesis using eq n by simp
    next
      assume "other_marker_at rest pageText c k"
      then show ?thesis using Cons.IH [of acc] eq by simp
    qed
  qed
qed

lemma other_marker_at_less:
  "other_marker_at cols pageText c k \<Longrightarrow> k < length pageText"
  unfolding other_marker_at_def list_ex_iff
  using occurs_at_nonempty_less columnPattern_nonempty by blast

lemma nextColumnIndex_of_some:
  assumes "other_marker_at cols pageText c k" "s < k"
  shows "\<exists>e. nextColumnIndex_of cols pageText c (int s) = int e \<and> s < e
           \<and> other_marker_at cols pageText c e \<and> e \<le> k"
proof -
  let ?r = "nextColumnIndex_of cols pageText c (int s)"
  have le: "?r \<le> int k"
    unfolding nextColumnIndex_of_def using assms by (rule nextColumn_loop_lower)
  have "int k < int (length pageText)"
    using assms(1) other_marker_at_less by simp
  with le have "?r \<noteq> int (length pageText)" by simp
  with nextColumn_loop_cases [of cols pageText c s "int (length pageText)"]
  obtain e where "?r = int e" "s < e" "other_marker_at cols pageText c e"
    unfolding nextColumnIndex_of_def by blast
  with le show ?thesis by auto
qed

lemma nextColumnIndex_of_none:
  assumes "\<not> (\<exists>k. s < k \<and> other_marker_at cols pageText c k)"
  shows "nextColumnIndex_of cols pageText c (int s) = int (length pageText)"
  using nextColumn_loop_cases [of cols pageText c s "int (length pageText)"] assms
  unfolding nextColumnIndex_of_def by blast

text \<open>One turn of the outer loop, in the words of the specification.\<close>

lemma task_in_section_code:
  "task_in_section cols pageText taskName columnName \<longleftrightarrow>
     (let columnIndex = indexOf pageText (columnPattern columnName) 0
      in columnIndex \<noteq> - 1 \<and>
         (let nextColumnIndex = nextColumnIndex_of cols pageText columnName columnIndex;
              taskIndex = indexOf pageText taskName columnIndex
          in taskIndex > columnIndex \<and> taskIndex < nextColumnIndex))"
proof (cases "first_index pageText (columnPattern columnName) 0")
  case None
  then have "indexOf pageText (columnPattern columnName) 0 = - 1"
    by (simp add: indexOf_first_index)
  then show ?thesis by (simp add: task_in_section_def columnSpan_def)
next
  case (Some k0)
  then have ci: "indexOf pageText (columnPattern columnName) 0 = int k0"
    by (simp add: indexOf_first_index)
  from Some have "k0 \<le> length pageText"
    by (simp add: first_index_Some_iff occurs_at_def)
  then have st: "min (nat (max 0 (int k0))) (length pageText) = k0" by simp
  have ti: "indexOf pageText taskName (int k0)
      = (case first_index pageText taskName k0 of None \<Rightarrow> - 1 | Some k \<Rightarrow> int k)"
    using st by (simp add: indexOf_first_index)
  show ?thesis
    by (cases "first_index pageText taskName k0")
      (simp_all add: task_in_section_def columnSpan_def ci ti Let_def)
qed

lemma column_loop_Cons:
  "column_loop cols (c # rest) pageText taskName =
     (if task_in_section cols pageText taskName c then Inr c
      else column_loop cols rest pageText taskName)"
  unfolding task_in_section_code by (simp add: Let_def)

lemma column_loop_none:
  "\<forall>c\<in>set rest. \<not> task_in_section cols pageText taskName c \<Longrightarrow>
   column_loop cols rest pageText taskName
     = Inl (Error (''Could not determine column for task: '' @ taskName))"
  by (induction rest) (simp_all add: column_loop_Cons del: column_loop.simps(2))

lemma column_loop_first:
  "\<forall>c'\<in>set pre. \<not> task_in_section cols pageText taskName c' \<Longrightarrow>
   task_in_section cols pageText taskName c \<Longrightarrow>
   column_loop cols (pre @ c # post) pageText taskName = Inr c"
  by (induction pre) (simp_all add: column_loop_Cons del: column_loop.simps(2))

lemma column_loop_only:
  "c \<in> set rest \<Longrightarrow> task_in_section cols pageText taskName c \<Longrightarrow>
   \<forall>c'\<in>set rest. c' \<noteq> c \<longrightarrow> \<not> task_in_section cols pageText taskName c' \<Longrightarrow>
   column_loop cols rest pageText taskName = Inr c"
  by (induction rest) (auto simp add: column_loop_Cons simp del: column_loop.simps(2))


lemma occurs_at_unique:
  assumes "count_occurrences s p = 1" "occurs_at s p k" "occurs_at s p k'"
  shows "k = k'"
proof -
  let ?xs = "filter (occurs_at s p) [0..<Suc (length s)]"
  from assms(1) have "length ?xs = Suc 0"
    unfolding count_occurrences_def by simp
  then obtain x where x: "?xs = [x]"
    unfolding length_Suc_conv by blast
  have "k < Suc (length s)" "k' < Suc (length s)"
    using assms(2,3) by (simp_all add: occurs_at_def)
  then have "k \<in> set ?xs" "k' \<in> set ?xs"
    using assms(2,3) by (simp_all del: upt_Suc)
  then show ?thesis unfolding x by simp
qed

lemma columnSpan_start:
  assumes "columnSpan cols pageText c = Some (start, stop)"
  shows "\<exists>s. start = int s \<and> first_index pageText (columnPattern c) 0 = Some s
     \<and> stop = nextColumnIndex_of cols pageText c (int s)"
proof (cases "first_index pageText (columnPattern c) 0")
  case None
  then have "indexOf pageText (columnPattern c) 0 = - 1" by (simp add: indexOf_first_index)
  with assms show ?thesis by (simp add: columnSpan_def)
next
  case (Some s)
  then have "indexOf pageText (columnPattern c) 0 = int s" by (simp add: indexOf_first_index)
  with assms Some show ?thesis by (auto simp: columnSpan_def Let_def split: if_splits)
qed

section \<open>The claims\<close>

text \<open>
  Claim C2. On the board text of the scenario, whose \<open>Review\<close> header is missing, and
  with the columns the constructor sets, \<open>Fix bug\<close> is found in \<open>To Do\<close>,
  \<open>Design updates\<close> in \<open>In Progress\<close>, and the search for \<open>Missing task\<close> throws an
  error whose message names \<open>Missing task\<close>.
\<close>

theorem scenario_columns:
  "getTaskColumn (new_DashboardPage \<lparr>textContent_body = boardText, getByText_exact_count = cnt\<rparr>)
     ''Fix bug'' = Inr ''To Do''
   \<and> getTaskColumn (new_DashboardPage \<lparr>textContent_body = boardText, getByText_exact_count = cnt\<rparr>)
     ''Design updates'' = Inr ''In Progress''
   \<and> getTaskColumn (new_DashboardPage \<lparr>textContent_body = boardText, getByText_exact_count = cnt\<rparr>)
     ''Missing task'' = Inl (Error ''Could not determine column for task: Missing task'')"
  by (simp add: getTaskColumn_def new_DashboardPage_def boardText_def columnPattern_def
      nextColumnIndex_of_def indexOf_def)

text \<open>
  Claim C4. When the marker of a column is present, the end of its span is the smallest
  index, strictly greater than the index of its own marker, at which the marker of any
  other column of the list stands, and the length of the text when there is no such
  index. The other columns are all the columns of the list with another name, whatever
  their place in the list.
\<close>

theorem span_end_nearest_other_marker:
  assumes "columnSpan cols pageText c = Some (start, stop)"
  shows "stop =
     (if \<exists>k. start < int k \<and> other_marker_at cols pageText c k
      then int (LEAST k. start < int k \<and> other_marker_at cols pageText c k)
      else int (length pageText))"
proof -
  from columnSpan_start [OF assms] obtain s where s: "start = int s"
      "stop = nextColumnIndex_of cols pageText c (int s)" by blast
  show ?thesis
  proof (cases "\<exists>k. s < k \<and> other_marker_at cols pageText c k")
    case True
    then obtain k where k: "s < k" "other_marker_at cols pageText c k" by blast
    from nextColumnIndex_of_some [OF k(2,1)] obtain e where
      e: "stop = int e" "s < e" "other_marker_at cols pageText c e"
      unfolding s(2) by blast
    have least: "e \<le> j" if "s < j \<and> other_marker_at cols pageText c j" for j
    proof -
      from that nextColumnIndex_of_some [of cols pageText c j s]
      obtain e' where "nextColumnIndex_of cols pageText c (int s) = int e'" "e' \<le> j" by blast
      with e(1) s(2) show ?thesis by simp
    qed
    have "(LEAST k. s < k \<and> other_marker_at cols pageText c k) = e"
      by (rule Least_equality) (use e least in auto)
    with True e(1) s(1) show ?thesis by simp
  next
    case False
    then have "stop = int (length pageText)"
      unfolding s(2) by (rule nextColumnIndex_of_none)
    with False s(1) show ?thesis by auto
  qed
qed

theorem span_end_nearest_other_marker_witness:
  "columnSpan (COLUMNS (new_DashboardPage reorderedPage)) reorderedText ''Done'' = Some (0, 17)
   \<and> other_marker_at (COLUMNS (new_DashboardPage reorderedPage)) reorderedText ''Done'' 17
   \<and> occurs_at reorderedText (columnPattern ''To Do'') 17
   \<and> int (LEAST k. 0 < int k
         \<and> other_marker_at (COLUMNS (new_DashboardPage reorderedPage)) reorderedText ''Done'' k) = 17"
proof -
  let ?cols = "COLUMNS (new_DashboardPage reorderedPage)"
  have sp: "columnSpan ?cols reorderedText ''Done'' = Some (0, 17)"
    by (simp add: columnSpan_def nextColumnIndex_of_def indexOf_def columnPattern_def
        reorderedText_def new_DashboardPage_def)
  have oc: "occurs_at reorderedText (columnPattern ''To Do'') 17"
    by (simp add: occurs_at_def columnPattern_def reorderedText_def)
  then have om: "other_marker_at ?cols reorderedText ''Done'' 17"
    by (simp add: other_marker_at_def new_DashboardPage_def)
  then have "\<exists>k. 0 < int k \<and> other_marker_at ?cols reorderedText ''Done'' k"
    by (intro exI [of _ 17]) simp
  with span_end_nearest_other_marker [OF sp]
  have "int (LEAST k. 0 < int k \<and> other_marker_at ?cols reorderedText ''Done'' k) = 17"
    by simp
  with sp oc om show ?thesis by simp
qed

text \<open>
  Claim C1, as amended. When the task name stands at exactly one index of the page text,
  that index lies in the span of a column of the list, strictly after the start of the
  span, and in the span of no other column, \<open>getTaskColumn\<close> returns that column.
\<close>

theorem unique_task_column:
  assumes once: "count_occurrences (textContent_body (page this)) taskName = 1"
    and at_p: "occurs_at (textContent_body (page this)) taskName p"
    and col: "c \<in> set (COLUMNS this)"
    and span: "columnSpan (COLUMNS this) (textContent_body (page this)) c = Some (start, stop)"
    and after: "start < int p"
    and before: "int p < stop"
    and others: "\<forall>c'\<in>set (COLUMNS this). c' \<noteq> c \<longrightarrow>
        \<not> in_span (COLUMNS this) (textContent_body (page this)) c' p"
  shows "getTaskColumn this taskName = Inr c"
proof -
  let ?text = "textContent_body (page this)" and ?cols = "COLUMNS this"
  from columnSpan_start [OF span] obtain s where s: "start = int s" by blast
  have sp: "s \<le> p" using after s by simp
  have none_before: "\<not> occurs_at ?text taskName j" if "s \<le> j \<and> j < p" for j
  proof
    assume "occurs_at ?text taskName j"
    then have "j = p" using at_p by (rule occurs_at_unique [OF once])
    with that show False by simp
  qed
  have "first_index ?text taskName s = Some p"
    unfolding first_index_Some_iff using sp at_p none_before by blast
  then have hit: "task_in_section ?cols ?text taskName c"
    using span s after before by (simp add: task_in_section_def)
  have miss: "\<not> task_in_section ?cols ?text taskName c'"
    if c': "c' \<in> set ?cols" "c' \<noteq> c" for c'
  proof
    assume t: "task_in_section ?cols ?text taskName c'"
    then obtain sp' where sp': "columnSpan ?cols ?text c' = Some sp'"
      by (cases "columnSpan ?cols ?text c'") (simp_all add: task_in_section_def)
    obtain s' e' where se: "sp' = (s', e')" by (cases sp')
    from t sp' se obtain k where k: "first_index ?text taskName (nat s') = Some k"
        "s' < int k" "int k < e'"
      by (cases "first_index ?text taskName (nat s')") (simp_all add: task_in_section_def)
    from k(1) have "occurs_at ?text taskName k" by (simp add: first_index_Some_iff)
    then have "k = p" using at_p by (rule occurs_at_unique [OF once])
    with k sp' se have "in_span ?cols ?text c' p" by (simp add: in_span_def)
    with others c' show False by blast
  qed
  then have "\<forall>c'\<in>set ?cols. c' \<noteq> c \<longrightarrow> \<not> task_in_section ?cols ?text taskName c'"
    by blast
  with col hit have "column_loop ?cols ?cols ?text taskName = Inr c"
    by (rule column_loop_only)
  then show ?thesis by (simp add: getTaskColumn_def)
qed

theorem unique_task_column_witness:
  "count_occurrences boardText ''Fix bug'' = 1
   \<and> occurs_at boardText ''Fix bug'' 25
   \<and> columnSpan (COLUMNS (new_DashboardPage scenarioPage)) boardText ''To Do'' = Some (0, 33)
   \<and> \<not> in_span (COLUMNS (new_DashboardPage scenarioPage)) boardText ''In Progress'' 25
   \<and> \<not> in_span (COLUMNS (new_DashboardPage scenarioPage)) boardText ''Review'' 25
   \<and> \<not> in_span (COLUMNS (new_DashboardPage scenarioPage)) boardText ''Done'' 25
   \<and> getTaskColumn (new_DashboardPage scenarioPage) ''Fix bug'' = Inr ''To Do''"
proof -
  let ?dp = "new_DashboardPage scenarioPage"
  have body_eq: "textContent_body (page ?dp) = boardText"
    by (simp add: new_DashboardPage_def scenarioPage_def)
  have cols: "COLUMNS ?dp = [''To Do'', ''In Progress'', ''Review'', ''Done'']"
    by (simp add: new_DashboardPage_def)
  have h1: "count_occurrences boardText ''Fix bug'' = 1"
    by code_simp
  have h2: "occurs_at boardText ''Fix bug'' 25"
    by (simp add: occurs_at_def boardText_def)
  have h3: "columnSpan (COLUMNS ?dp) boardText ''To Do'' = Some (0, 33)"
    unfolding cols
    by (simp add: columnSpan_def nextColumnIndex_of_def indexOf_def columnPattern_def
        boardText_def)
  have h4: "\<not> in_span (COLUMNS ?dp) boardText ''In Progress'' 25"
    unfolding cols
    by (simp add: in_span_def columnSpan_def nextColumnIndex_of_def indexOf_def
        columnPattern_def boardText_def)
  have h5: "\<not> in_span (COLUMNS ?dp) boardText ''Review'' 25"
    unfolding cols
    by (simp add: in_span_def columnSpan_def nextColumnIndex_of_def indexOf_def
        columnPattern_def boardText_def)
  have h6: "\<not> in_span (COLUMNS ?dp) boardText ''Done'' 25"
    unfolding cols
    by (simp add: in_span_def columnSpan_def nextColumnIndex_of_def indexOf_def
        columnPattern_def boardText_def)
  have h7: "\<forall>c'\<in>set (COLUMNS ?dp). c' \<noteq> ''To Do'' \<longrightarrow>
      \<not> in_span (COLUMNS ?dp) (textContent_body (page ?dp)) c' 25"
    unfolding body_eq using h4 h5 h6 by (simp add: cols)
  have h8: "''To Do'' \<in> set (COLUMNS ?dp)" by (simp add: cols)
  have "getTaskColumn ?dp ''Fix bug'' = Inr ''To Do''"
    using h1 h2 h8 h3 _ _ h7 unfolding body_eq [symmetric]
    by (rule unique_task_column) simp_all
  with h1 h2 h3 h4 h5 h6 show ?thesis by simp
qed

theorem unique_task_at_marker_counterexample:
  "count_occurrences (textContent_body almostDonePage) ''Done (almost)'' = 1
   \<and> occurs_at (textContent_body almostDonePage) ''Done (almost)'' 10
   \<and> in_span (COLUMNS (new_DashboardPage almostDonePage)) (textContent_body almostDonePage)
        ''Done'' 10
   \<and> \<not> in_span (COLUMNS (new_DashboardPage almostDonePage)) (textContent_body almostDonePage)
        ''To Do'' 10
   \<and> \<not> in_span (COLUMNS (new_DashboardPage almostDonePage)) (textContent_body almostDonePage)
        ''In Progress'' 10
   \<and> \<not> in_span (COLUMNS (new_DashboardPage almostDonePage)) (textContent_body almostDonePage)
        ''Review'' 10
   \<and> getTaskColumn (new_DashboardPage almostDonePage) ''Done (almost)''
       = Inl (Error ''Could not determine column for task: Done (almost)'')"
proof -
  let ?b = "''To Do (1) Done (almost)''"
  let ?cols = "[''To Do'', ''In Progress'', ''Review'', ''Done'']"
  have body_eq: "textContent_body almostDonePage = ?b"
    by (simp add: almostDonePage_def)
  have cols_eq: "COLUMNS (new_DashboardPage almostDonePage) = ?cols"
    by (simp add: new_DashboardPage_def)
  have 1: "count_occurrences ?b ''Done (almost)'' = 1"
    by code_simp
  have 2: "occurs_at ?b ''Done (almost)'' 10"
    by (simp add: occurs_at_def)
  have 3: "in_span ?cols ?b ''Done'' 10"
    by (simp add: in_span_def columnSpan_def nextColumnIndex_of_def indexOf_def
        columnPattern_def)
  have 4: "\<not> in_span ?cols ?b ''To Do'' 10"
    by (simp add: in_span_def columnSpan_def nextColumnIndex_of_def indexOf_def
        columnPattern_def)
  have 5: "\<not> in_span ?cols ?b ''In Progress'' 10"
    by (simp add: in_span_def columnSpan_def nextColumnIndex_of_def indexOf_def
        columnPattern_def)
  have 6: "\<not> in_span ?cols ?b ''Review'' 10"
    by (simp add: in_span_def columnSpan_def nextColumnIndex_of_def indexOf_def
        columnPattern_def)
  have 7: "getTaskColumn (new_DashboardPage almostDonePage) ''Done (almost)''
       = Inl (Error ''Could not determine column for task: Done (almost)'')"
    by (simp add: getTaskColumn_def new_DashboardPage_def almostDonePage_def
        nextColumnIndex_of_def indexOf_def columnPattern_def)
  from 1 2 3 4 5 6 7 show ?thesis
    unfolding body_eq cols_eq by simp
qed

text \<open>
  Claim C3, as amended. The section of a column in which a task is looked for is the
  part of its span strictly after its start: when the first occurrence of the task name
  at or after the start of the span lies strictly after the start and before the end,
  immediately before the next marker included, the task is attributed to the column,
  provided no column before it in the list has the task in its section.
\<close>

theorem first_section_wins:
  assumes "COLUMNS this = pre @ c # post"
    and "columnSpan (COLUMNS this) (textContent_body (page this)) c = Some (start, stop)"
    and "first_index (textContent_body (page this)) taskName (nat start) = Some k"
    and "start < int k" and "int k < stop"
    and "\<forall>c'\<in>set pre.
           \<not> task_in_section (COLUMNS this) (textContent_body (page this)) taskName c'"
  shows "getTaskColumn this taskName = Inr c"
proof -
  have "task_in_section (COLUMNS this) (textContent_body (page this)) taskName c"
    using assms(2-5) by (simp add: task_in_section_def)
  with assms(6)
  have "column_loop (COLUMNS this) (pre @ c # post) (textContent_body (page this)) taskName
      = Inr c"
    by (rule column_loop_first)
  then show ?thesis by (simp add: getTaskColumn_def assms(1))
qed

theorem first_section_wins_witness:
  "COLUMNS (new_DashboardPage adjacentPage) = [''To Do''] @ ''In Progress'' # [''Review'', ''Done'']
   \<and> columnSpan (COLUMNS (new_DashboardPage adjacentPage)) adjacentText ''In Progress''
       = Some (19, 41)
   \<and> first_index adjacentText ''Fix bug'' 19 = Some 34
   \<and> 34 + length ''Fix bug'' = (41::nat)
   \<and> \<not> task_in_section (COLUMNS (new_DashboardPage adjacentPage)) adjacentText ''Fix bug'' ''To Do''
   \<and> getTaskColumn (new_DashboardPage adjacentPage) ''Fix bug'' = Inr ''In Progress''"
proof -
  let ?dp = "new_DashboardPage adjacentPage"
  let ?cols = "[''To Do'', ''In Progress'', ''Review'', ''Done'']"
  have body_eq: "textContent_body (page ?dp) = adjacentText"
    by (simp add: new_DashboardPage_def adjacentPage_def)
  have cols_eq: "COLUMNS ?dp = [''To Do''] @ ''In Progress'' # [''Review'', ''Done'']"
    by (simp add: new_DashboardPage_def)
  have cols_eq': "COLUMNS ?dp = ?cols"
    by (simp add: new_DashboardPage_def)
  have h2: "columnSpan (COLUMNS ?dp) adjacentText ''In Progress'' = Some (19, 41)"
    unfolding cols_eq'
    by (simp add: columnSpan_def nextColumnIndex_of_def indexOf_def columnPattern_def
        adjacentText_def)
  have h3: "first_index adjacentText ''Fix bug'' 19 = Some 34"
    by code_simp
  have h6: "\<not> task_in_section (COLUMNS ?dp) adjacentText ''Fix bug'' ''To Do''"
    unfolding cols_eq' task_in_section_code
    by (simp add: nextColumnIndex_of_def indexOf_def columnPattern_def adjacentText_def)
  have "getTaskColumn ?dp ''Fix bug'' = Inr ''In Progress''"
    using cols_eq h2 _ _ _ _ unfolding body_eq [symmetric]
  proof (rule first_section_wins)
    show "first_index (textContent_body (page ?dp)) ''Fix bug'' (nat 19) = Some 34"
      using h3 by (simp add: body_eq)
    show "\<forall>c'\<in>set [''To Do''].
        \<not> task_in_section (COLUMNS ?dp) (textContent_body (page ?dp)) ''Fix bug'' c'"
      using h6 by (simp add: body_eq)
  qed simp_all
  with cols_eq h2 h3 h6 show ?thesis by simp
qed

theorem task_at_span_start_counterexample:
  "COLUMNS (new_DashboardPage shipPage) = [''To Do'', ''In Progress'', ''Review''] @ ''Done'' # []
   \<and> columnSpan (COLUMNS (new_DashboardPage shipPage)) (textContent_body shipPage) ''To Do'' = None
   \<and> columnSpan (COLUMNS (new_DashboardPage shipPage)) (textContent_body shipPage) ''In Progress''
       = None
   \<and> columnSpan (COLUMNS (new_DashboardPage shipPage)) (textContent_body shipPage) ''Review'' = None
   \<and> columnSpan (COLUMNS (new_DashboardPage shipPage)) (textContent_body shipPage) ''Done''
       = Some (0, 16)
   \<and> first_index (textContent_body shipPage) ''Done'' 0 = Some 0
   \<and> getTaskColumn (new_DashboardPage shipPage) ''Done''
       = Inl (Error ''Could not determine column for task: Done'')"
  by (simp add: new_DashboardPage_def shipPage_def columnSpan_def nextColumnIndex_of_def
      indexOf_def columnPattern_def getTaskColumn_def first_index_def occurs_at_def)

text \<open>
  Claim C5. When the task name occurs nowhere in the page text, \<open>getTaskColumn\<close> throws
  an error whose message ends with the task name; it returns no column.
\<close>

theorem absent_task_throws:
  assumes "\<not> sublist taskName (textContent_body (page this))"
  shows "getTaskColumn this taskName
     = Inl (Error (''Could not determine column for task: '' @ taskName))"
proof -
  let ?b = "textContent_body (page this)"
  from assms have none: "first_index ?b taskName start = None" for start
    by (simp add: first_index_None_iff occurs_at_sublist)
  have "\<not> task_in_section (COLUMNS this) ?b taskName c" for c
    by (simp add: task_in_section_def none split: option.splits)
  then have "\<forall>c\<in>set (COLUMNS this). \<not> task_in_section (COLUMNS this) ?b taskName c"
    by blast
  then have "column_loop (COLUMNS this) (COLUMNS this) ?b taskName
      = Inl (Error (''Could not determine column for task: '' @ taskName))"
    by (rule column_loop_none)
  then show ?thesis by (simp add: getTaskColumn_def)
qed

theorem absent_task_throws_witness:
  "\<not> sublist ''Write tests'' (textContent_body (page (new_DashboardPage scenarioPage)))
   \<and> getTaskColumn (new_DashboardPage scenarioPage) ''Write tests''
       = Inl (Error ''Could not determine column for task: Write tests'')"
proof -
  have "\<not> sublist ''Write tests'' boardText" by code_simp
  then have h: "\<not> sublist ''Write tests'' (textContent_body (page (new_DashboardPage scenarioPage)))"
    by (simp add: new_DashboardPage_def scenarioPage_def)
  from absent_task_throws [OF h] h show ?thesis by simp
qed

text \<open>
  Claim C6, as amended. When each \<open>count()\<close> resolves, a tag is in the list that
  \<open>getTaskTags\<close> returns exactly when it is one of the four possible tags and its
  exact-text locator matches at least one element. The page text is not read. A
  \<open>count()\<close> that rejects is outside the model: the source awaits it without
  catching a rejection, and nothing is stated here about that case.
\<close>

theorem tag_found_iff_locator_matches:
  "tag \<in> set (getTaskTags this taskName) \<longleftrightarrow>
     tag \<in> set possibleTags \<and> 0 < getByText_exact_count (page this) tag"
  by (auto simp: getTaskTags_def)

theorem tag_in_text_not_found_counterexample:
  "sublist ''Bug'' (textContent_body (page (new_DashboardPage bugfixPage)))
   \<and> ''Bug'' \<in> set possibleTags
   \<and> ''Bug'' \<notin> set (getTaskTags (new_DashboardPage bugfixPage) ''Bugfix release'')"
proof -
  have "sublist ''Bug'' ''To Do (1) Bugfix release''" by code_simp
  then show ?thesis
    by (simp add: new_DashboardPage_def bugfixPage_def possibleTags_def getTaskTags_def
        no_matches_def)
qed

text \<open>
  Claim C7, as amended. The result holds possible tags only. It is monotonic in the
  matches of the locators: when every possible tag that is matched on one page is
  matched on another, every tag found on the first is found on the second.
\<close>

theorem tags_monotonic_in_matches:
  "set (getTaskTags this taskName) \<subseteq> set possibleTags
   \<and> ((\<forall>tag\<in>set possibleTags. 0 < getByText_exact_count (page this) tag
          \<longrightarrow> 0 < getByText_exact_count (page this') tag)
        \<longrightarrow> set (getTaskTags this taskName) \<subseteq> set (getTaskTags this' taskName))"
  by (auto simp: getTaskTags_def)

theorem tags_monotonic_in_matches_witness:
  "getTaskTags (new_DashboardPage bugPage) ''Fix bug'' = [''Bug'']
   \<and> getTaskTags (new_DashboardPage featureBugPage) ''Fix bug'' = [''Feature'', ''Bug'']
   \<and> list_all (\<lambda>tag. only_bug tag \<le> feature_and_bug tag) possibleTags
   \<and> set (getTaskTags (new_DashboardPage bugPage) ''Fix bug'')
        \<subseteq> set (getTaskTags (new_DashboardPage featureBugPage) ''Fix bug'')
   \<and> set (getTaskTags (new_DashboardPage bugPage) ''Fix bug'') \<subseteq> set possibleTags"
proof -
  let ?a = "new_DashboardPage bugPage" and ?b = "new_DashboardPage featureBugPage"
  have h: "\<forall>tag\<in>set possibleTags. 0 < getByText_exact_count (page ?a) tag
          \<longrightarrow> 0 < getByText_exact_count (page ?b) tag"
    by (simp add: new_DashboardPage_def bugPage_def featureBugPage_def possibleTags_def
        only_bug_def feature_and_bug_def)
  have a: "getTaskTags ?a ''Fix bug'' = [''Bug'']"
    by (simp add: new_DashboardPage_def bugPage_def possibleTags_def getTaskTags_def
        only_bug_def)
  have b: "getTaskTags ?b ''Fix bug'' = [''Feature'', ''Bug'']"
    by (simp add: new_DashboardPage_def featureBugPage_def possibleTags_def getTaskTags_def
        feature_and_bug_def)
  have l: "list_all (\<lambda>tag. only_bug tag \<le> feature_and_bug tag) possibleTags"
    by (simp add: possibleTags_def only_bug_def feature_and_bug_def)
  from tags_monotonic_in_matches [of ?a "''Fix bug''" ?b] h
  have "set (getTaskTags ?a ''Fix bug'') \<subseteq> set (getTaskTags ?b ''Fix bug'')
      \<and> set (getTaskTags ?a ''Fix bug'') \<subseteq> set possibleTags"
    by blast
  with a b l show ?thesis by simp
qed

theorem more_tag_text_loses_tag_counterexample:
  "prefix (textContent_body (page (new_DashboardPage bugPage)))
      (textContent_body (page (new_DashboardPage bugBugPage)))
   \<and> count_occurrences (textContent_body (page (new_DashboardPage bugPage))) ''Bug'' = 1
   \<and> count_occurrences (textContent_body (page (new_DashboardPage bugBugPage))) ''Bug'' = 2
   \<and> ''Bug'' \<in> set (getTaskTags (new_DashboardPage bugPage) ''Fix bug'')
   \<and> ''Bug'' \<notin> set (getTaskTags (new_DashboardPage bugBugPage) ''Fix bug'')"
proof -
  have 1: "count_occurrences ''Bug'' ''Bug'' = 1" by code_simp
  have 2: "count_occurrences ''Bug Bug'' ''Bug'' = 2" by code_simp
  from 1 2 show ?thesis
    by (simp add: new_DashboardPage_def bugPage_def bugBugPage_def possibleTags_def
        getTaskTags_def only_bug_def no_matches_def)
qed

text \<open>
  Claim C9. The result of \<open>getTaskTags\<close> does not depend on the task name: on one page,
  two task names give the same list.
\<close>

theorem tags_independent_of_taskName:
  "getTaskTags this taskName1 = getTaskTags this taskName2"
  by (simp add: getTaskTags_def)

text \<open>
  Claim C10. The list that \<open>getTaskTags\<close> returns has no duplicates and keeps the order
  of the possible tags \<open>Feature\<close>, \<open>Bug\<close>, \<open>Design\<close>, \<open>High Priority\<close>: it is a
  subsequence of that list.
\<close>

theorem tags_distinct_in_vocabulary_order:
  "distinct (getTaskTags this taskName)
   \<and> subseq (getTaskTags this taskName) [''Feature'', ''Bug'', ''Design'', ''High Priority'']"
proof -
  have "distinct possibleTags" by (simp add: possibleTags_def)
  then have "distinct (getTaskTags this taskName)" by (simp add: getTaskTags_def)
  moreover have "subseq (getTaskTags this taskName) possibleTags"
    unfolding getTaskTags_def by (rule subseq_filter_left)
  ultimately show ?thesis by (simp add: possibleTags_def)
qed

end
